theory Spec2Isabelle
  imports Main
begin

section \<open>Python calls as world-passing functions\<close>

text \<open>
  The framework is built from closures that may have side effects and may raise. A call
  is modelled as a function from the world before the call to its outcome and the world
  after it: \<open>Inl e\<close> when the call raises \<open>e\<close>, \<open>Inr v\<close> when it returns \<open>v\<close>.
  The world \<open>'w\<close> is whatever the closures read and write (a counter, a log, a heap).
  The exception type \<open>'e\<close> stands for the instances of Python's \<open>Exception\<close>, which
  is what every \<open>except Exception\<close> clause of the source catches; interpreter signals
  outside that class are not modelled. \<open>StopIteration\<close> is such an instance: for
  \<open>IO\<close> and \<open>Either\<close> it is an exception like any other, for iterators and
  generators it has the meaning Python gives it.
\<close>

type_synonym ('w, 'e, 'a) call = "'w \<Rightarrow> ('e + 'a) \<times> 'w"

text \<open>
  The exceptions the interpreter and \<open>itertools\<close> raise on their own in the code below
  or treat in a way of their own (\<open>StopIteration\<close>, with its value if it has one), and
  any other exception, told apart by a payload.
\<close>

datatype 'x exn =
  StopIteration "'x option"
| RuntimeError string
| TypeError string
| ValueError string
| Raised 'x

section \<open>either.py\<close>

text \<open>
  \<open>Either(value, is_right)\<close>: \<open>Right v\<close> is \<open>Either(v, True)\<close> and \<open>Left err\<close> is
  \<open>Either(err, False)\<close>.
\<close>

datatype ('e, 'a) Either = Left 'e | Right 'a

fun is_right :: "('e, 'a) Either \<Rightarrow> bool" where
  "is_right (Right v) = True"
| "is_right (Left err) = False"

definition is_left :: "('e, 'a) Either \<Rightarrow> bool" where
  "is_left self = (\<not> is_right self)"

text \<open>\<open>bind\<close>: the call \<open>f(self._value)\<close> is not inside any \<open>try\<close>.\<close>

definition Either_bind ::
  "('e, 'a) Either \<Rightarrow> ('a \<Rightarrow> ('w, 'x, ('e, 'b) Either) call) \<Rightarrow> ('w, 'x, ('e, 'b) Either) call" where
  "Either_bind self f =
     (case self of
        Right v \<Rightarrow> f v
      | Left err \<Rightarrow> (\<lambda>w. (Inr (Left err), w)))"

text \<open>\<open>map\<close>: the call \<open>f(self._value)\<close> is inside \<open>try ... except Exception as e\<close>.\<close>

definition Either_map ::
  "('e, 'a) Either \<Rightarrow> ('a \<Rightarrow> ('w, 'e, 'b) call) \<Rightarrow> ('w, 'x, ('e, 'b) Either) call" where
  "Either_map self f =
     (case self of
        Right v \<Rightarrow>
          (\<lambda>w. case f v w of
                 (Inr b, w1) \<Rightarrow> (Inr (Right b), w1)
               | (Inl e, w1) \<Rightarrow> (Inr (Left e), w1))
      | Left err \<Rightarrow> (\<lambda>w. (Inr (Left err), w)))"

definition Either_pure :: "'a \<Rightarrow> ('e, 'a) Either" where
  "Either_pure v = Right v"

section \<open>io\_monad.py\<close>

datatype ('w, 'e, 'a) IO = IO (effect: "('w, 'e, 'a) call")

definition run :: "('w, 'e, 'a) IO \<Rightarrow> ('w, 'e, 'a) call" where
  "run self w = effect self w"

definition IO_map :: "('w, 'e, 'a) IO \<Rightarrow> ('a \<Rightarrow> ('w, 'e, 'b) call) \<Rightarrow> ('w, 'e, 'b) IO" where
  "IO_map self f =
     IO (\<lambda>w. case effect self w of
               (Inl e, w1) \<Rightarrow> (Inl e, w1)
             | (Inr result, w1) \<Rightarrow> f result w1)"

definition IO_bind ::
  "('w, 'e, 'a) IO \<Rightarrow> ('a \<Rightarrow> ('w, 'e, ('w, 'e, 'b) IO) call) \<Rightarrow> ('w, 'e, 'b) IO" where
  "IO_bind self f =
     IO (\<lambda>w. case effect self w of
               (Inl e, w1) \<Rightarrow> (Inl e, w1)
             | (Inr result, w1) \<Rightarrow>
                 (case f result w1 of
                    (Inl e, w2) \<Rightarrow> (Inl e, w2)
                  | (Inr next_io, w2) \<Rightarrow> run next_io w2))"

definition IO_pure :: "'a \<Rightarrow> ('w, 'e, 'a) IO" where
  "IO_pure v = IO (\<lambda>w. (Inr v, w))"

definition IO_attempt :: "('w, 'e, 'a) IO \<Rightarrow> ('w, 'x, ('e, 'a) Either) IO" where
  "IO_attempt self =
     IO (\<lambda>w. case effect self w of
               (Inr result, w1) \<Rightarrow> (Inr (Right result), w1)
             | (Inl e, w1) \<Rightarrow> (Inr (Left e), w1))"

text \<open>
  \<open>retry\<close>: the loop \<open>for attempt in range(max_attempts)\<close> runs over the remaining
  attempt numbers; \<open>last_exception\<close> starts as \<open>None\<close>. After the loop the source
  executes \<open>raise last_exception\<close>, and raising \<open>None\<close> is a \<open>TypeError\<close>.
\<close>

fun retry_loop ::
  "('w, 'x exn, 'a) call \<Rightarrow> int \<Rightarrow> int list \<Rightarrow> 'x exn option \<Rightarrow> ('w, 'x exn, 'a) call" where
  "retry_loop eff max_attempts [] last_exception w =
     (case last_exception of
        None \<Rightarrow> (Inl (TypeError ''exceptions must derive from BaseException''), w)
      | Some e \<Rightarrow> (Inl e, w))"
| "retry_loop eff max_attempts (attempt # rest) last_exception w =
     (case eff w of
        (Inr v, w1) \<Rightarrow> (Inr v, w1)
      | (Inl e, w1) \<Rightarrow>
          (if attempt = max_attempts - 1 then (Inl e, w1)
           else retry_loop eff max_attempts rest (Some e) w1))"

definition IO_retry :: "('w, 'x exn, 'a) IO \<Rightarrow> int \<Rightarrow> ('w, 'x exn, 'a) IO" where
  "IO_retry self max_attempts =
     IO (retry_loop (effect self) max_attempts [0..max_attempts - 1] None)"

text \<open>
  Instrumentation, as the tests do it with \<open>attempts[0] += 1\<close>: the world after \<open>k\<close>
  invocations of a closure in a row, and a closure wrapped so that it counts its own
  invocations.
\<close>

primrec invocations :: "('w, 'e, 'a) call \<Rightarrow> nat \<Rightarrow> 'w \<Rightarrow> 'w" where
  "invocations eff 0 w = w"
| "invocations eff (Suc k) w = invocations eff k (snd (eff w))"

definition counted :: "('w, 'e, 'a) call \<Rightarrow> (nat \<times> 'w, 'e, 'a) call" where
  "counted eff = (\<lambda>(c, w). case eff w of (r, w1) \<Rightarrow> (r, (Suc c, w1)))"

section \<open>stream.py\<close>

text \<open>
  A stream holds a \<open>source\<close>: a call that produces a fresh iterator. An iterator is
  what its \<open>__next__\<close> does in a given world: it raises, it stops, or it hands out an
  element together with the iterator to go on with. A generator or a filtering iterator
  may go once round its loop without reaching a \<open>yield\<close>; that is a \<open>Pass\<close>, and
  whoever pulls simply pulls again. Iterators may be unbounded, so they form a
  codatatype, and the loops that consume them are partial functions.
\<close>

datatype ('a, 'it) pulled =
  is_Stop: Stop
| is_Pass: Pass (remaining: 'it)
| is_Emit: Emit (emitted: 'a) (remaining: 'it)

codatatype ('w, 'e, 'a) iterator =
  Iterator (pull: "('w, 'e, ('a, ('w, 'e, 'a) iterator) pulled) call")

datatype ('w, 'e, 'a) Stream =
  Stream (source: "('w, 'e, ('w, 'e, 'a) iterator) call")

text \<open>
  \<open>next(it)\<close> as the \<open>for\<close> statement, \<open>list\<close>, \<open>map\<close> and \<open>islice\<close> read it: a
  \<open>StopIteration\<close> that comes out of \<open>__next__\<close>, whoever raised it, is the end of the
  iterator; every other exception is an error.
\<close>

definition next_item ::
  "('w, 'x exn, 'a) iterator \<Rightarrow> ('w, 'x exn, ('a, ('w, 'x exn, 'a) iterator) pulled) call" where
  "next_item it w =
     (case pull it w of
        (Inl (StopIteration v), w1) \<Rightarrow> (Inr Stop, w1)
      | (Inl e, w1) \<Rightarrow> (Inl e, w1)
      | (Inr p, w1) \<Rightarrow> (Inr p, w1))"

text \<open>
  An exception that leaves the frame of a generator: a \<open>StopIteration\<close> is replaced by
  a \<open>RuntimeError\<close> (PEP 479), every other exception leaves as it is.
\<close>

definition in_generator :: "'x exn \<Rightarrow> 'x exn" where
  "in_generator e =
     (case e of
        StopIteration v \<Rightarrow> RuntimeError ''generator raised StopIteration''
      | _ \<Rightarrow> e)"

text \<open>\<open>iter(values)\<close> for a tuple or list of values.\<close>

primcorec list_iter :: "'a list \<Rightarrow> ('w, 'e, 'a) iterator" where
  "list_iter values =
     Iterator (\<lambda>w. case values of
                     [] \<Rightarrow> (Inr Stop, w)
                   | v # vs \<Rightarrow> (Inr (Emit v (list_iter vs)), w))"

text \<open>\<open>itertools.count(start, step)\<close>.\<close>

primcorec count_iter :: "int \<Rightarrow> int \<Rightarrow> ('w, 'e, int) iterator" where
  "count_iter start step =
     Iterator (\<lambda>w. (Inr (Emit start (count_iter (start + step) step)), w))"

text \<open>
  The built-in \<open>map(f, it)\<close>: its \<open>__next__\<close> takes one element of \<open>it\<close> and calls \<open>f\<close>
  on it. Whatever \<open>f\<close> raises comes out of \<open>__next__\<close>; when that is a
  \<open>StopIteration\<close>, whoever reads this iterator takes it as its end.
\<close>

primcorec map_iter ::
  "('a \<Rightarrow> ('w, 'x exn, 'b) call) \<Rightarrow> ('w, 'x exn, 'a) iterator \<Rightarrow> ('w, 'x exn, 'b) iterator" where
  "map_iter f it =
     Iterator (\<lambda>w. case next_item it w of
                     (Inl e, w1) \<Rightarrow> (Inl e, w1)
                   | (Inr Stop, w1) \<Rightarrow> (Inr Stop, w1)
                   | (Inr (Pass it1), w1) \<Rightarrow> (Inr (Pass (map_iter f it1)), w1)
                   | (Inr (Emit a it1), w1) \<Rightarrow>
                       (case f a w1 of
                          (Inl e, w2) \<Rightarrow> (Inl e, w2)
                        | (Inr b, w2) \<Rightarrow> (Inr (Emit b (map_iter f it1)), w2)))"

text \<open>
  \<open>itertools.islice(it, n)\<close> once constructed: when \<open>n\<close> elements have been handed
  out it stops without pulling \<open>it\<close> again.
\<close>

primcorec islice :: "('w, 'x exn, 'a) iterator \<Rightarrow> nat \<Rightarrow> ('w, 'x exn, 'a) iterator" where
  "islice it n =
     Iterator (\<lambda>w. if n = 0 then (Inr Stop, w)
                   else (case next_item it w of
                           (Inl e, w1) \<Rightarrow> (Inl e, w1)
                         | (Inr Stop, w1) \<Rightarrow> (Inr Stop, w1)
                         | (Inr (Pass it1), w1) \<Rightarrow> (Inr (Pass (islice it1 n)), w1)
                         | (Inr (Emit a it1), w1) \<Rightarrow> (Inr (Emit a (islice it1 (n - 1))), w1)))"

text \<open>
  A generator object whose body has not started: the first \<open>next\<close> runs the body up to
  its loop (here: the call \<open>self._source()\<close>, inside the generator's frame) and goes on
  with the loop.
\<close>

definition generator ::
  "('w, 'x exn, ('w, 'x exn, 'a) iterator) call \<Rightarrow> ('w, 'x exn, 'a) iterator" where
  "generator body =
     Iterator (\<lambda>w. case body w of
                     (Inl e, w1) \<Rightarrow> (Inl (in_generator e), w1)
                   | (Inr it, w1) \<Rightarrow> pull it w1)"

text \<open>
  The loops of \<open>bind\<close>: \<open>for item in self._source(): for sub_item in f(item): yield
  sub_item\<close>. \<open>inner\<close> is the iterator of the inner loop while it runs. The calls
  \<open>f(item)\<close> and \<open>iter(f(item))\<close>, which calls the source of the sub-stream, run inside
  the generator's frame; the two \<open>for\<close> statements read their iterators with \<open>next\<close>.
\<close>

primcorec bind_loop ::
  "('a \<Rightarrow> ('w, 'x exn, ('w, 'x exn, 'b) Stream) call) \<Rightarrow> ('w, 'x exn, 'a) iterator
     \<Rightarrow> ('w, 'x exn, 'b) iterator option \<Rightarrow> ('w, 'x exn, 'b) iterator" where
  "bind_loop f outer inner =
     Iterator (\<lambda>w. case inner of
         Some sub \<Rightarrow>
           (case next_item sub w of
              (Inl e, w1) \<Rightarrow> (Inl e, w1)
            | (Inr Stop, w1) \<Rightarrow> (Inr (Pass (bind_loop f outer None)), w1)
            | (Inr (Pass sub1), w1) \<Rightarrow> (Inr (Pass (bind_loop f outer (Some sub1))), w1)
            | (Inr (Emit sub_item sub1), w1) \<Rightarrow>
                (Inr (Emit sub_item (bind_loop f outer (Some sub1))), w1))
       | None \<Rightarrow>
           (case next_item outer w of
              (Inl e, w1) \<Rightarrow> (Inl e, w1)
            | (Inr Stop, w1) \<Rightarrow> (Inr Stop, w1)
            | (Inr (Pass outer1), w1) \<Rightarrow> (Inr (Pass (bind_loop f outer1 None)), w1)
            | (Inr (Emit item outer1), w1) \<Rightarrow>
                (case f item w1 of
                   (Inl e, w2) \<Rightarrow> (Inl (in_generator e), w2)
                 | (Inr sub_stream, w2) \<Rightarrow>
                     (case source sub_stream w2 of
                        (Inl e, w3) \<Rightarrow> (Inl (in_generator e), w3)
                      | (Inr sub, w3) \<Rightarrow> (Inr (Pass (bind_loop f outer1 (Some sub))), w3)))))"

text \<open>
  The loop of \<open>distinct\<close>: \<open>for item in self._source(): if item not in seen: seen.add(item);
  yield item\<close>. Elements are hashable values compared by equality.
\<close>

primcorec distinct_loop ::
  "'a set \<Rightarrow> ('w, 'x exn, 'a) iterator \<Rightarrow> ('w, 'x exn, 'a) iterator" where
  "distinct_loop seen it =
     Iterator (\<lambda>w. case next_item it w of
                     (Inl e, w1) \<Rightarrow> (Inl e, w1)
                   | (Inr Stop, w1) \<Rightarrow> (Inr Stop, w1)
                   | (Inr (Pass it1), w1) \<Rightarrow> (Inr (Pass (distinct_loop seen it1)), w1)
                   | (Inr (Emit a it1), w1) \<Rightarrow>
                       (if a \<notin> seen then (Inr (Emit a (distinct_loop (insert a seen) it1)), w1)
                        else (Inr (Pass (distinct_loop seen it1)), w1)))"

definition Stream_map ::
  "('w, 'x exn, 'a) Stream \<Rightarrow> ('a \<Rightarrow> ('w, 'x exn, 'b) call) \<Rightarrow> ('w, 'x exn, 'b) Stream" where
  "Stream_map self f =
     Stream (\<lambda>w. case source self w of
                   (Inl e, w1) \<Rightarrow> (Inl e, w1)
                 | (Inr it, w1) \<Rightarrow> (Inr (map_iter f it), w1))"

definition Stream_bind ::
  "('w, 'x exn, 'a) Stream \<Rightarrow> ('a \<Rightarrow> ('w, 'x exn, ('w, 'x exn, 'b) Stream) call)
     \<Rightarrow> ('w, 'x exn, 'b) Stream" where
  "Stream_bind self f =
     Stream (\<lambda>w. (Inr (generator (\<lambda>w. case source self w of
                                         (Inl e, w1) \<Rightarrow> (Inl e, w1)
                                       | (Inr it, w1) \<Rightarrow> (Inr (bind_loop f it None), w1))), w))"

definition Stream_pure :: "'a \<Rightarrow> ('w, 'e, 'a) Stream" where
  "Stream_pure v = Stream (\<lambda>w. (Inr (list_iter [v]), w))"

definition Stream_of :: "'a list \<Rightarrow> ('w, 'e, 'a) Stream" where
  "Stream_of values = Stream (\<lambda>w. (Inr (list_iter values), w))"

text \<open>
  \<open>range(start, stop, step)\<close> as the list of its elements; a zero step is a
  \<open>ValueError\<close>, raised when the source is called.
\<close>

definition range_len :: "int \<Rightarrow> int \<Rightarrow> int \<Rightarrow> nat" where
  "range_len start stop step =
     (if 0 < step \<and> start < stop then nat ((stop - start - 1) div step + 1)
      else if step < 0 \<and> stop < start then nat ((start - stop - 1) div (- step) + 1)
      else 0)"

definition py_range :: "int \<Rightarrow> int \<Rightarrow> int \<Rightarrow> int list" where
  "py_range start stop step =
     map (\<lambda>i. start + int i * step) [0..<range_len start stop step]"

definition Stream_range :: "int \<Rightarrow> int option \<Rightarrow> int \<Rightarrow> ('w, 'x exn, int) Stream" where
  "Stream_range start stop step =
     (case stop of
        None \<Rightarrow> Stream (\<lambda>w. (Inr (count_iter start step), w))
      | Some stop1 \<Rightarrow>
          Stream (\<lambda>w. if step = 0 then (Inl (ValueError ''range() arg 3 must not be zero''), w)
                      else (Inr (list_iter (py_range start stop1 step)), w)))"

text \<open>
  \<open>take\<close>: \<open>itertools.islice(self._source(), n)\<close>. The source is called first; then
  \<open>islice\<close> refuses a stop argument outside \<open>0 .. sys.maxsize\<close>.
\<close>

definition sys_maxsize :: int where
  "sys_maxsize = 2 ^ 63 - 1"

definition Stream_take :: "('w, 'x exn, 'a) Stream \<Rightarrow> int \<Rightarrow> ('w, 'x exn, 'a) Stream" where
  "Stream_take self n =
     Stream (\<lambda>w. case source self w of
                   (Inl e, w1) \<Rightarrow> (Inl e, w1)
                 | (Inr it, w1) \<Rightarrow>
                     (if n < 0 \<or> sys_maxsize < n
                      then (Inl (ValueError ''Stop argument for islice() must be None or an integer: 0 <= x <= sys.maxsize.''), w1)
                      else (Inr (islice it (nat n)), w1)))"

definition Stream_distinct :: "('w, 'x exn, 'a) Stream \<Rightarrow> ('w, 'x exn, 'a) Stream" where
  "Stream_distinct self =
     Stream (\<lambda>w. (Inr (generator (\<lambda>w. case source self w of
                                         (Inl e, w1) \<Rightarrow> (Inl e, w1)
                                       | (Inr it, w1) \<Rightarrow> (Inr (distinct_loop {} it), w1))), w))"

text \<open>
  \<open>list(it)\<close>: read the iterator until it ends. On an unbounded iterator this never
  returns, which is the value \<open>None\<close>.
\<close>

partial_function (option) drain ::
  "('w, 'x exn, 'a) iterator \<Rightarrow> 'a list \<Rightarrow> 'w \<Rightarrow> (('x exn + 'a list) \<times> 'w) option" where
  "drain it acc w =
     (case next_item it w of
        (Inl e, w1) \<Rightarrow> Some (Inl e, w1)
      | (Inr Stop, w1) \<Rightarrow> Some (Inr acc, w1)
      | (Inr (Pass it1), w1) \<Rightarrow> drain it1 acc w1
      | (Inr (Emit a it1), w1) \<Rightarrow> drain it1 (acc @ [a]) w1)"

definition Stream_to_list ::
  "('w, 'x exn, 'a) Stream \<Rightarrow> 'w \<Rightarrow> (('x exn + 'a list) \<times> 'w) option" where
  "Stream_to_list self w =
     (case source self w of
        (Inl e, w1) \<Rightarrow> Some (Inl e, w1)
      | (Inr it, w1) \<Rightarrow> drain it [] w1)"

text \<open>
  \<open>find\<close>: \<open>for item in self._source(): if predicate(item): return Either.right(item)\<close>,
  and \<open>Either.left("No element found")\<close> after the loop. \<open>find\<close> is no generator: what
  the source or the predicate raises leaves it unchanged.
\<close>

partial_function (option) find_loop ::
  "('a \<Rightarrow> ('w, 'x exn, bool) call) \<Rightarrow> ('w, 'x exn, 'a) iterator \<Rightarrow> 'w
     \<Rightarrow> (('x exn + (string, 'a) Either) \<times> 'w) option" where
  "find_loop predicate it w =
     (case next_item it w of
        (Inl e, w1) \<Rightarrow> Some (Inl e, w1)
      | (Inr Stop, w1) \<Rightarrow> Some (Inr (Left ''No element found''), w1)
      | (Inr (Pass it1), w1) \<Rightarrow> find_loop predicate it1 w1
      | (Inr (Emit a it1), w1) \<Rightarrow>
          (case predicate a w1 of
             (Inl e, w2) \<Rightarrow> Some (Inl e, w2)
           | (Inr matches, w2) \<Rightarrow>
               (if matches then Some (Inr (Right a), w2) else find_loop predicate it1 w2)))"

definition Stream_find ::
  "('w, 'x exn, 'a) Stream \<Rightarrow> ('a \<Rightarrow> ('w, 'x exn, bool) call) \<Rightarrow> 'w
     \<Rightarrow> (('x exn + (string, 'a) Either) \<times> 'w) option" where
  "Stream_find self predicate w =
     (case source self w of
        (Inl e, w1) \<Rightarrow> Some (Inl e, w1)
      | (Inr it, w1) \<Rightarrow> find_loop predicate it w1)"

text \<open>
  Instrumentation, as \<open>track_execution\<close> in the tests: a function that appends its
  argument to the list \<open>executed\<close> (the world) and returns \<open>g x\<close>. \<open>pure_fn g\<close> is a
  function without side effects that never raises. \<open>call_in_turn f xs\<close> is what
  \<open>list(map(f, xs))\<close> does: it calls \<open>f\<close> on the elements of \<open>xs\<close> one after the other,
  each call in the world the one before has left, and collects the results; a call that
  raises \<open>StopIteration\<close> ends the list there, a call that raises anything else makes
  the whole raise it.
\<close>

fun call_in_turn ::
  "('a \<Rightarrow> ('w, 'x exn, 'b) call) \<Rightarrow> 'a list \<Rightarrow> 'b list \<Rightarrow> ('w, 'x exn, 'b list) call" where
  "call_in_turn f [] acc w = (Inr acc, w)"
| "call_in_turn f (x # xs) acc w =
     (case f x w of
        (Inl (StopIteration v), w1) \<Rightarrow> (Inr acc, w1)
      | (Inl e, w1) \<Rightarrow> (Inl e, w1)
      | (Inr y, w1) \<Rightarrow> call_in_turn f xs (acc @ [y]) w1)"

definition track_execution :: "('a \<Rightarrow> 'b) \<Rightarrow> 'a \<Rightarrow> ('a list, 'e, 'b) call" where
  "track_execution g x executed = (Inr (g x), executed @ [x])"

definition pure_fn :: "('a \<Rightarrow> 'b) \<Rightarrow> 'a \<Rightarrow> ('w, 'e, 'b) call" where
  "pure_fn g = (\<lambda>x w. (Inr (g x), w))"

text \<open>
  Traversal order, as \<open>find\<close> goes through it: \<open>rejects predicate it w xs it1 w1\<close>
  holds when reading \<open>it\<close> again and again, starting in world \<open>w\<close>, hands out exactly
  the elements \<open>xs\<close>, in this order, the predicate, called on each element as it comes,
  returns \<open>False\<close> every time, and what is left is the iterator \<open>it1\<close> in world \<open>w1\<close>.
\<close>

inductive rejects ::
  "('a \<Rightarrow> ('w, 'x exn, bool) call) \<Rightarrow> ('w, 'x exn, 'a) iterator \<Rightarrow> 'w \<Rightarrow> 'a list
     \<Rightarrow> ('w, 'x exn, 'a) iterator \<Rightarrow> 'w \<Rightarrow> bool"
  for predicate :: "'a \<Rightarrow> ('w, 'x exn, bool) call" where
  rejects_Nil: "rejects predicate it w [] it w"
| rejects_Pass:
    "next_item it w = (Inr (Pass it1), w1) \<Longrightarrow> rejects predicate it1 w1 xs it2 w2
     \<Longrightarrow> rejects predicate it w xs it2 w2"
| rejects_Emit:
    "next_item it w = (Inr (Emit a it1), w1) \<Longrightarrow> predicate a w1 = (Inr False, w1')
     \<Longrightarrow> rejects predicate it1 w1' xs it2 w2
     \<Longrightarrow> rejects predicate it w (a # xs) it2 w2"

text \<open>
  An unbounded traversal without a match: \<open>never_matches predicate it w\<close> holds when
  reading \<open>it\<close> again and again, starting in world \<open>w\<close>, neither ends nor raises, and the
  predicate, called on each element as it comes, returns \<open>False\<close> every time.
\<close>

coinductive never_matches ::
  "('a \<Rightarrow> ('w, 'x exn, bool) call) \<Rightarrow> ('w, 'x exn, 'a) iterator \<Rightarrow> 'w \<Rightarrow> bool"
  for predicate :: "'a \<Rightarrow> ('w, 'x exn, bool) call" where
  never_Pass:
    "next_item it w = (Inr (Pass it1), w1) \<Longrightarrow> never_matches predicate it1 w1
     \<Longrightarrow> never_matches predicate it w"
| never_Emit:
    "next_item it w = (Inr (Emit a it1), w1) \<Longrightarrow> predicate a w1 = (Inr False, w2)
     \<Longrightarrow> never_matches predicate it1 w2
     \<Longrightarrow> never_matches predicate it w"

text \<open>
  What \<open>distinct\<close> is specified to return: the elements of \<open>xs\<close> at the positions
  where they occur for the first time, in the order of \<open>xs\<close>. \<open>not_seen\<close> is the same
  list computed the way the loop runs, with the set of elements seen so far.
\<close>

definition first_occurrences :: "'a list \<Rightarrow> 'a list" where
  "first_occurrences xs =
     map (\<lambda>i. xs ! i) (filter (\<lambda>i. xs ! i \<notin> set (take i xs)) [0..<length xs])"

fun not_seen :: "'a set \<Rightarrow> 'a list \<Rightarrow> 'a list" where
  "not_seen seen [] = []"
| "not_seen seen (x # xs) =
     (if x \<in> seen then not_seen seen xs else x # not_seen (insert x seen) xs)"

section \<open>http\_stream.py\<close>

text \<open>
  \<open>HttpRequest\<close> is a dataclass that is not frozen: its instances are objects whose
  fields can be assigned. A stream of requests therefore holds references, and the world
  is the heap that gives each reference the present state of its object. A header
  dictionary is a map from names to values. The field \<open>method\<close> is called
  \<open>http_method\<close> here; \<open>params\<close> and \<open>body\<close>, of type \<open>Any\<close> in the source, hold
  strings.
\<close>

datatype HttpMethod = GET | POST | PUT | DELETE | PATCH

record HttpRequest =
  url :: string
  http_method :: HttpMethod
  headers :: "(string \<rightharpoonup> string) option"
  params :: "(string \<rightharpoonup> string) option"
  body :: "string option"
  timeout :: int

type_synonym ref = nat

type_synonym heap = "ref \<Rightarrow> HttpRequest"

datatype 'x HttpStream = HttpStream (requests: "(heap, 'x exn, ref) Stream")

definition map_request ::
  "'x HttpStream \<Rightarrow> (ref \<Rightarrow> (heap, 'x exn, ref) call) \<Rightarrow> 'x HttpStream" where
  "map_request self f = HttpStream (Stream_map (requests self) f)"

text \<open>
  \<open>add_headers\<close>, the function \<open>with_headers\<close> maps over the requests:
  \<open>new_headers = (request.headers or {}).copy(); new_headers.update(headers);
  request.headers = new_headers; return request\<close>.
\<close>

definition add_headers :: "(string \<rightharpoonup> string) \<Rightarrow> ref \<Rightarrow> (heap, 'e, ref) call" where
  "add_headers hdrs request hp =
     (let new_headers = (case headers (hp request) of None \<Rightarrow> Map.empty | Some d \<Rightarrow> d) ++ hdrs
      in (Inr request, hp(request := (hp request)\<lparr>headers := Some new_headers\<rparr>)))"

definition with_headers :: "'x HttpStream \<Rightarrow> (string \<rightharpoonup> string) \<Rightarrow> 'x HttpStream" where
  "with_headers self hdrs = map_request self (add_headers hdrs)"

section \<open>Properties of Either and IO\<close>

lemma invocations_Suc_right:
  "invocations eff (Suc k) w = snd (eff (invocations eff k w))"
  by (induction k arbitrary: w) simp_all

lemma retry_loop_success:
  "\<lbrakk>\<forall>j<k. isl (fst (eff (invocations eff j w))); eff (invocations eff k w) = (Inr v, w');
    i + int k \<le> n - 1\<rbrakk>
   \<Longrightarrow> retry_loop eff n [i..n - 1] le w = (Inr v, w')"
proof (induction k arbitrary: i w le)
  case 0
  then have "[i..n - 1] = i # [i + 1..n - 1]" by (simp add: upto_rec1)
  with 0 show ?case by simp
next
  case (Suc k)
  from Suc.prems(3) have step: "[i..n - 1] = i # [i + 1..n - 1]" and ne: "i \<noteq> n - 1"
    by (simp_all add: upto_rec1)
  from Suc.prems(1) have "isl (fst (eff w))" by force
  then obtain e w1 where ew: "eff w = (Inl e, w1)"
    by (cases "eff w") (auto simp: isl_def)
  have "retry_loop eff n [i + 1..n - 1] (Some e) w1 = (Inr v, w')"
  proof (rule Suc.IH)
    show "\<forall>j<k. isl (fst (eff (invocations eff j w1)))"
      using Suc.prems(1) ew by (metis Suc_less_eq invocations.simps(2) snd_conv)
    show "eff (invocations eff k w1) = (Inr v, w')"
      using Suc.prems(2) ew by simp
    show "i + 1 + int k \<le> n - 1" using Suc.prems(3) by simp
  qed
  with step ne ew show ?case by simp
qed

lemma retry_loop_all_fail:
  "\<lbrakk>\<forall>j<Suc m. isl (fst (eff (invocations eff j w))); i + int m = n - 1\<rbrakk>
   \<Longrightarrow> retry_loop eff n [i..n - 1] le w = eff (invocations eff m w)"
proof (induction m arbitrary: i w le)
  case 0
  then have step: "[i..n - 1] = [i]" by simp
  from 0 have "isl (fst (eff w))" by simp
  then obtain e w1 where ew: "eff w = (Inl e, w1)"
    by (cases "eff w") (auto simp: isl_def)
  with step 0 show ?case by simp
next
  case (Suc m)
  from Suc.prems(2) have step: "[i..n - 1] = i # [i + 1..n - 1]" and ne: "i \<noteq> n - 1"
    by (simp_all add: upto_rec1)
  from Suc.prems(1) have "isl (fst (eff w))" by force
  then obtain e w1 where ew: "eff w = (Inl e, w1)"
    by (cases "eff w") (auto simp: isl_def)
  have "retry_loop eff n [i + 1..n - 1] (Some e) w1 = eff (invocations eff m w1)"
  proof (rule Suc.IH)
    show "\<forall>j<Suc m. isl (fst (eff (invocations eff j w1)))"
      using Suc.prems(1) ew by (metis Suc_less_eq invocations.simps(2) snd_conv)
    show "i + 1 + int m = n - 1" using Suc.prems(2) by simp
  qed
  with step ne ew show ?case by simp
qed

lemma invocations_counted:
  "invocations (counted eff) k (c, w) = (c + k, invocations eff k w)"
  by (induction k arbitrary: c w) (simp_all add: counted_def split: prod.splits)

lemma counted_apply:
  "counted eff (c, w) = (fst (eff w), (Suc c, snd (eff w)))"
  by (simp add: counted_def split: prod.splits)

text \<open>
  C3. For \<open>max_attempts \<ge> 1\<close>, running \<open>retry(max_attempts)\<close> invokes the closure one
  attempt after the other, each in the world the one before has left. If the first \<open>k\<close>
  attempts raise and attempt \<open>k + 1\<close> (still within \<open>max_attempts\<close>) returns \<open>v\<close>, the
  result is \<open>v\<close>, in the world that attempt has left; counted, the closure has been
  invoked exactly \<open>k + 1\<close> times. If all \<open>max_attempts\<close> attempts raise, the error of the
  last attempt is raised, in the world after \<open>max_attempts\<close> invocations; counted, the
  closure has been invoked exactly \<open>max_attempts\<close> times.
\<close>

theorem IO_retry_first_success_or_last_error:
  assumes "1 \<le> max_attempts"
  shows "(\<forall>k v w'. k < nat max_attempts
             \<and> (\<forall>j<k. isl (fst (eff (invocations eff j w))))
             \<and> eff (invocations eff k w) = (Inr v, w')
           \<longrightarrow> run (IO_retry (IO eff) max_attempts) w = (Inr v, w')
             \<and> run (IO_retry (IO (counted eff)) max_attempts) (c, w) = (Inr v, (c + k + 1, w')))
       \<and> ((\<forall>j<nat max_attempts. isl (fst (eff (invocations eff j w))))
           \<longrightarrow> (\<exists>e. fst (eff (invocations eff (nat max_attempts - 1) w)) = Inl e
                  \<and> run (IO_retry (IO eff) max_attempts) w
                      = (Inl e, invocations eff (nat max_attempts) w)
                  \<and> run (IO_retry (IO (counted eff)) max_attempts) (c, w)
                      = (Inl e, (c + nat max_attempts, invocations eff (nat max_attempts) w))))"
proof (intro conjI allI impI)
  fix k v w'
  assume a: "k < nat max_attempts
             \<and> (\<forall>j<k. isl (fst (eff (invocations eff j w))))
             \<and> eff (invocations eff k w) = (Inr v, w')"
  then have bound: "0 + int k \<le> max_attempts - 1" by linarith
  have "retry_loop eff max_attempts [0..max_attempts - 1] None w = (Inr v, w')"
    using a bound by (intro retry_loop_success [where k = k]) simp_all
  then show "run (IO_retry (IO eff) max_attempts) w = (Inr v, w')"
    by (simp add: run_def IO_retry_def)
  have "retry_loop (counted eff) max_attempts [0..max_attempts - 1] None (c, w)
        = (Inr v, (c + k + 1, w'))"
  proof (rule retry_loop_success [where k = k])
    show "\<forall>j<k. isl (fst (counted eff (invocations (counted eff) j (c, w))))"
      using a by (simp add: invocations_counted counted_apply)
    show "counted eff (invocations (counted eff) k (c, w)) = (Inr v, c + k + 1, w')"
      using a by (simp add: invocations_counted counted_apply)
    show "0 + int k \<le> max_attempts - 1" by (rule bound)
  qed
  then show "run (IO_retry (IO (counted eff)) max_attempts) (c, w) = (Inr v, (c + k + 1, w'))"
    by (simp add: run_def IO_retry_def)
next
  assume a: "\<forall>j<nat max_attempts. isl (fst (eff (invocations eff j w)))"
  obtain m where m: "nat max_attempts = Suc m" using assms by (cases "nat max_attempts") auto
  then have bound: "0 + int m = max_attempts - 1" by linarith
  from a m obtain e where e: "fst (eff (invocations eff m w)) = Inl e"
    by (auto simp: isl_def)
  have "retry_loop eff max_attempts [0..max_attempts - 1] None w = eff (invocations eff m w)"
    using a m bound by (intro retry_loop_all_fail) simp_all
  then have plain: "run (IO_retry (IO eff) max_attempts) w
                      = (Inl e, invocations eff (nat max_attempts) w)"
    using m e by (simp add: run_def IO_retry_def invocations_Suc_right prod_eq_iff
        del: invocations.simps)
  have "retry_loop (counted eff) max_attempts [0..max_attempts - 1] None (c, w)
        = counted eff (invocations (counted eff) m (c, w))"
  proof (rule retry_loop_all_fail)
    show "\<forall>j<Suc m. isl (fst (counted eff (invocations (counted eff) j (c, w))))"
      using a m by (simp add: invocations_counted counted_apply)
    show "0 + int m = max_attempts - 1" by (rule bound)
  qed
  then have "run (IO_retry (IO (counted eff)) max_attempts) (c, w)
               = (Inl e, (c + nat max_attempts, invocations eff (nat max_attempts) w))"
    using m e by (simp add: run_def IO_retry_def invocations_counted counted_apply
        invocations_Suc_right del: invocations.simps)
  with e m plain
  show "\<exists>e. fst (eff (invocations eff (nat max_attempts - 1) w)) = Inl e
           \<and> run (IO_retry (IO eff) max_attempts) w
               = (Inl e, invocations eff (nat max_attempts) w)
           \<and> run (IO_retry (IO (counted eff)) max_attempts) (c, w)
               = (Inl e, (c + nat max_attempts, invocations eff (nat max_attempts) w))"
    by simp
qed

text \<open>
  The closures of the tests: one that fails on attempts 1 and 2 and returns 42 on attempt
  3, and one that always fails.
\<close>

theorem IO_retry_first_success_or_last_error_witness:
  "run (IO_retry (IO (counted (\<lambda>a::nat. if a + 1 < 3 then (Inl (Raised ''Fail''), a + 1)
                                         else (Inr (42::int), a + 1)))) 3) (0, 0)
     = (Inr 42, (3, 3))
   \<and> run (IO_retry (IO (counted (\<lambda>a::nat. (Inl (Raised (''Always fails'', a + 1)) :: (string \<times> nat) exn + int, a + 1)))) 3) (0, 0)
     = (Inl (Raised (''Always fails'', 3)), (3, 3))"
proof
  let ?flaky = "\<lambda>a::nat. if a + 1 < 3 then (Inl (Raised ''Fail'') :: string exn + int, a + 1)
                          else (Inr (42::int), a + 1)"
  have three: "(1::int) \<le> 3" by simp
  have inv: "invocations ?flaky (Suc 0) 0 = 1" "invocations ?flaky 2 0 = 2"
    by (simp_all add: numeral_2_eq_2)
  then have fails: "\<forall>j<2. isl (fst (?flaky (invocations ?flaky j 0)))"
    by (simp add: less_2_cases_iff)
  have ok: "?flaky (invocations ?flaky 2 0) = (Inr 42, 3)"
    using inv by simp
  have "run (IO_retry (IO (counted ?flaky)) 3) (0, 0) = (Inr 42, (0 + 2 + 1, 3))"
  proof (rule IO_retry_first_success_or_last_error
                [OF three, where eff = ?flaky and w = 0 and c = 0,
                 THEN conjunct1, rule_format, of 2 42 3, THEN conjunct2])
    show "2 < nat 3 \<and> (\<forall>j<2. isl (fst (?flaky (invocations ?flaky j 0))))
            \<and> ?flaky (invocations ?flaky 2 0) = (Inr 42, 3)"
      using fails ok by simp
  qed
  then show "run (IO_retry (IO (counted ?flaky)) 3) (0, 0) = (Inr 42, (3, 3))"
    by simp
next
  let ?bad = "\<lambda>a::nat. (Inl (Raised (''Always fails'', a + 1)) :: (string \<times> nat) exn + int, a + 1)"
  have three: "(1::int) \<le> 3" by simp
  have inv: "invocations ?bad 2 0 = 2" "invocations ?bad 3 0 = 3"
    by (simp_all add: numeral_2_eq_2 numeral_3_eq_3)
  then have fails: "\<forall>j<nat 3. isl (fst (?bad (invocations ?bad j 0)))"
    by simp
  have "\<exists>e. fst (?bad (invocations ?bad (nat 3 - 1) 0)) = Inl e
            \<and> run (IO_retry (IO ?bad) 3) 0 = (Inl e, invocations ?bad (nat 3) 0)
            \<and> run (IO_retry (IO (counted ?bad)) 3) (0, 0)
                = (Inl e, (0 + nat 3, invocations ?bad (nat 3) 0))"
    using fails
    by (rule IO_retry_first_success_or_last_error
               [OF three, where eff = ?bad and w = 0 and c = 0, THEN conjunct2, THEN mp])
  then obtain e where e: "fst (?bad (invocations ?bad (nat 3 - 1) 0)) = Inl e"
    and r: "run (IO_retry (IO (counted ?bad)) 3) (0, 0)
              = (Inl e, (0 + nat 3, invocations ?bad (nat 3) 0))"
    by blast
  from e inv have "e = Raised (''Always fails'', 3)" by simp
  with r inv show "run (IO_retry (IO (counted ?bad)) 3) (0, 0)
                 = (Inl (Raised (''Always fails'', 3)), (3, 3))"
    by simp
qed

text \<open>
  C10. For \<open>max_attempts \<le> 0\<close> the loop body never runs: whatever the closure is, it is
  not invoked (the world is unchanged) and \<open>raise None\<close> raises a \<open>TypeError\<close>.
\<close>

theorem IO_retry_nonpositive_raises_TypeError:
  assumes "max_attempts \<le> 0"
  shows "run (IO_retry self max_attempts) w
         = (Inl (TypeError ''exceptions must derive from BaseException''), w)"
  using assms by (simp add: run_def IO_retry_def)

text \<open>A closure that counts its invocations and would return 42: the count stays 0.\<close>

theorem IO_retry_nonpositive_raises_TypeError_witness:
  "run (IO_retry (IO (counted (\<lambda>a::nat. (Inr (42::int) :: string exn + int, a + 1)))) 0) (0, 0)
     = (Inl (TypeError ''exceptions must derive from BaseException''), (0, 0))
   \<and> run (IO_retry (IO (counted (\<lambda>a::nat. (Inr (42::int) :: string exn + int, a + 1)))) (- 2)) (0, 0)
     = (Inl (TypeError ''exceptions must derive from BaseException''), (0, 0))"
  using IO_retry_nonpositive_raises_TypeError
          [of 0 "IO (counted (\<lambda>a::nat. (Inr (42::int) :: string exn + int, a + 1)))" "(0, 0)"]
        IO_retry_nonpositive_raises_TypeError
          [of "- 2" "IO (counted (\<lambda>a::nat. (Inr (42::int) :: string exn + int, a + 1)))" "(0, 0)"]
  by simp

text \<open>
  C5. \<open>attempt().run()\<close> never raises: when the closure raises \<open>x\<close> the result is
  \<open>Left x\<close>, when it returns \<open>v\<close> the result is \<open>Right v\<close>.
\<close>

theorem IO_attempt_captures_outcome:
  fixes self :: "('w, 'e, 'a) IO"
  shows "(\<exists>r. fst (run (IO_attempt self :: ('w, 'x, ('e, 'a) Either) IO) w) = Inr r)
   \<and> (run self w = (Inl x, w')
        \<longrightarrow> run (IO_attempt self :: ('w, 'x, ('e, 'a) Either) IO) w = (Inr (Left x), w'))
   \<and> (run self w = (Inr v, w')
        \<longrightarrow> run (IO_attempt self :: ('w, 'x, ('e, 'a) Either) IO) w = (Inr (Right v), w'))"
  by (auto simp: run_def IO_attempt_def split: prod.splits sum.splits)

theorem IO_attempt_captures_outcome_witness:
  "run (IO_attempt (IO (\<lambda>w::nat. (Inl ''boom'' :: string + int, w + 1)))) 0
     = (Inr (Left ''boom'') :: unit + (string, int) Either, 1)
   \<and> run (IO_attempt (IO (\<lambda>w::nat. (Inr 42 :: string + int, w + 1)))) 0
     = (Inr (Right 42) :: unit + (string, int) Either, 1)"
  using IO_attempt_captures_outcome
          [where self = "IO (\<lambda>w::nat. (Inl ''boom'' :: string + int, w + 1))" and w = 0
             and x = "''boom''" and w' = 1 and 'x = unit, THEN conjunct2, THEN conjunct1]
        IO_attempt_captures_outcome
          [where self = "IO (\<lambda>w::nat. (Inr 42 :: string + int, w + 1))" and w = 0
             and v = 42 and w' = 1 and 'x = unit, THEN conjunct2, THEN conjunct2]
  by (simp add: run_def)

text \<open>
  C4. \<open>map\<close> never raises: on a \<open>Right\<close> whose \<open>f\<close> raises \<open>x\<close> it returns \<open>Left x\<close>,
  on a \<open>Left\<close> it returns a \<open>Left\<close> with the same error. \<open>bind\<close> on a \<open>Right\<close> is
  the call of \<open>f\<close> itself, whatever it returns or raises; on a \<open>Left\<close> it returns the
  \<open>Left\<close> and leaves the world untouched, so \<open>f\<close> is not called.
\<close>

theorem Either_map_catches_bind_propagates:
  fixes f :: "'a \<Rightarrow> ('w, 'e, 'b) call" and g :: "'a \<Rightarrow> ('w, 'x, ('e, 'c) Either) call"
  shows "(\<exists>r. fst (Either_map self f w :: ('x + ('e, 'b) Either) \<times> 'w) = Inr r)
   \<and> (f v w = (Inl x, w')
        \<longrightarrow> (Either_map (Right v) f w :: ('x + ('e, 'b) Either) \<times> 'w) = (Inr (Left x), w'))
   \<and> (Either_map (Left err) f w :: ('x + ('e, 'b) Either) \<times> 'w) = (Inr (Left err), w)
   \<and> Either_bind (Right v) g w = g v w
   \<and> Either_bind (Left err) g w = (Inr (Left err), w)"
proof (intro conjI impI)
  show "\<exists>r. fst (Either_map self f w) = Inr r"
    by (cases self) (simp_all add: Either_map_def split: prod.split sum.split)
  show "Either_map (Right v) f w = (Inr (Left x), w')" if "f v w = (Inl x, w')"
    using that by (simp add: Either_map_def)
  show "Either_map (Left err) f w = (Inr (Left err), w)"
    by (simp add: Either_map_def)
  show "Either_bind (Right v) g w = g v w"
    by (simp add: Either_bind_def)
  show "Either_bind (Left err) g w = (Inr (Left err), w)"
    by (simp add: Either_bind_def)
qed

theorem Either_map_catches_bind_propagates_witness:
  "Either_map (Right (5::int)) (\<lambda>v w::nat. (Inl ''boom'' :: string + int, w + 1)) 0
     = (Inr (Left ''boom'') :: unit + (string, int) Either, 1)"
  using Either_map_catches_bind_propagates
          [where f = "\<lambda>v w::nat. (Inl ''boom'' :: string + int, w + 1)" and v = "5::int"
             and w = 0 and x = "''boom''" and w' = 1 and 'x = unit, THEN conjunct2, THEN conjunct1]
  by simp

section \<open>Properties of Stream\<close>

lemma pure_fn_apply: "pure_fn g x w = (Inr (g x), w)"
  by (simp add: pure_fn_def)

lemma next_item_Inr: "pull it w = (Inr p, w1) \<Longrightarrow> next_item it w = (Inr p, w1)"
  by (simp add: next_item_def)

lemma next_item_no_StopIteration: "next_item it w \<noteq> (Inl (StopIteration v), w1)"
  by (simp add: next_item_def split: prod.split sum.split exn.split)

lemma next_item_list_iter:
  "next_item (list_iter xs) w
   = (case xs of [] \<Rightarrow> (Inr Stop, w) | x # xs' \<Rightarrow> (Inr (Emit x (list_iter xs')), w))"
  by (simp add: next_item_def split: list.split)

lemma next_item_count_iter:
  "next_item (count_iter k step) w = (Inr (Emit k (count_iter (k + step) step)), w)"
  by (simp add: next_item_def)

lemma drain_list_iter: "drain (list_iter xs) acc w = Some (Inr (acc @ xs), w)"
proof (induction xs arbitrary: acc)
  case Nil
  show ?case by (subst drain.simps) (simp add: next_item_list_iter)
next
  case (Cons x xs)
  show ?case by (subst drain.simps) (simp add: next_item_list_iter Cons.IH)
qed

lemma Stream_to_list_of: "Stream_to_list (Stream_of xs) w = Some (Inr xs, w)"
  by (simp add: Stream_to_list_def Stream_of_def drain_list_iter)

lemma next_item_islice_map_count:
  "next_item (islice (map_iter f (count_iter k 1)) (Suc n)) w
   = (case f k w of
        (Inl (StopIteration v), w1) \<Rightarrow> (Inr Stop, w1)
      | (Inl e, w1) \<Rightarrow> (Inl e, w1)
      | (Inr y, w1) \<Rightarrow> (Inr (Emit y (islice (map_iter f (count_iter (k + 1) 1)) n)), w1))"
  by (simp add: next_item_def next_item_count_iter [unfolded next_item_def]
      split: prod.split sum.split exn.split)

lemma drain_take_map_count:
  "drain (islice (map_iter f (count_iter k 1)) n) acc w
   = Some (call_in_turn f [k..k + int n - 1] acc w)"
proof (induction n arbitrary: k acc w)
  case 0
  show ?case by (subst drain.simps) (simp add: next_item_def)
next
  case (Suc n)
  have up: "[k..k + int (Suc n) - 1] = k # [k + 1..k + 1 + int n - 1]"
    by (simp add: upto_rec1 add.commute add.left_commute)
  show ?case
    unfolding up
    by (subst drain.simps)
       (simp add: next_item_islice_map_count Suc.IH split: prod.split sum.split exn.split)
qed

lemma call_in_turn_track_execution:
  "call_in_turn (track_execution g) xs acc executed = (Inr (acc @ map g xs), executed @ xs)"
  by (induction xs arbitrary: acc executed) (simp_all add: track_execution_def)

lemma to_list_range_map_take_5:
  "Stream_to_list (Stream_take (Stream_map (Stream_range 0 None 1) f) 5) w
   = Some (call_in_turn f [0, 1, 2, 3, 4] [] w)"
proof -
  have five: "[0..0 + int 5 - 1] = [0, 1, 2, 3, 4]"
    by (simp add: upto_rec1)
  have "Stream_to_list (Stream_take (Stream_map (Stream_range 0 None 1) f) 5) w
        = drain (islice (map_iter f (count_iter 0 1)) 5) [] w"
    by (simp add: Stream_to_list_def Stream_take_def Stream_map_def Stream_range_def
        sys_maxsize_def)
  also have "\<dots> = Some (call_in_turn f [0..0 + int 5 - 1] [] w)"
    by (rule drain_take_map_count)
  finally show ?thesis unfolding five .
qed

text \<open>
  C2. The pipeline \<open>Stream.range(0).map(f).take(5)\<close> is a value built without any world:
  none of \<open>range\<close>, \<open>map\<close>, \<open>take\<close> runs a call. With \<open>f\<close> recording its calls,
  \<open>to_list()\<close> returns \<open>[g 0, .., g 4]\<close> and \<open>f\<close> has been called exactly five times, on
  0, 1, 2, 3, 4 in this order, although \<open>range(0)\<close> is unbounded. For every \<open>f\<close>,
  creating the iterator, the first thing \<open>to_list\<close> does, calls \<open>f\<close> not once.
\<close>

theorem Stream_range_map_take_calls_f_five_times:
  "Stream_to_list (Stream_take (Stream_map (Stream_range 0 None 1) (track_execution g)) 5) executed
     = Some (Inr [g 0, g 1, g 2, g 3, g 4], executed @ [0, 1, 2, 3, 4])
   \<and> snd (source (Stream_take (Stream_map (Stream_range 0 None 1) f) 5) w) = w"
proof (intro conjI)
  show "Stream_to_list (Stream_take (Stream_map (Stream_range 0 None 1) (track_execution g)) 5) executed
     = Some (Inr [g 0, g 1, g 2, g 3, g 4], executed @ [0, 1, 2, 3, 4])"
    by (simp only: to_list_range_map_take_5 call_in_turn_track_execution) simp
  show "snd (source (Stream_take (Stream_map (Stream_range 0 None 1) f) 5) w) = w"
    by (simp add: Stream_take_def Stream_map_def Stream_range_def sys_maxsize_def)
qed


lemma pull_generator:
  "pull (generator start) w
   = (case start w of (Inl e, w1) \<Rightarrow> (Inl (in_generator e), w1) | (Inr it, w1) \<Rightarrow> pull it w1)"
  by (simp add: generator_def)

lemma in_generator_no_StopIteration: "in_generator e \<noteq> StopIteration v"
  by (simp add: in_generator_def split: exn.split)

lemma next_item_Inl:
  "pull it w = (Inl e, w1) \<Longrightarrow> \<forall>v. e \<noteq> StopIteration v \<Longrightarrow> next_item it w = (Inl e, w1)"
  by (cases e) (simp_all add: next_item_def)

lemma next_item_generator:
  "start w = (Inr it, w1) \<Longrightarrow> next_item (generator start) w = next_item it w1"
  by (simp add: next_item_def pull_generator)

lemma next_item_generator_raises:
  "start w = (Inl e, w1) \<Longrightarrow> next_item (generator start) w = (Inl (in_generator e), w1)"
  by (rule next_item_Inl) (simp_all add: pull_generator in_generator_no_StopIteration)

lemma drain_cong_next: "next_item it w = next_item it' w' \<Longrightarrow> drain it acc w = drain it' acc w'"
  by (subst drain.simps, subst (2) drain.simps) simp

lemma drain_raises: "next_item it w = (Inl e, w1) \<Longrightarrow> drain it acc w = Some (Inl e, w1)"
  by (subst drain.simps) simp

text \<open>What the loop of \<open>bind\<close> hands out while its inner loop runs, and after it.\<close>

lemma next_item_bind_inner:
  "next_item (bind_loop f outer (Some sub)) w
   = (case next_item sub w of
        (Inl e, w1) \<Rightarrow> (Inl e, w1)
      | (Inr Stop, w1) \<Rightarrow> (Inr (Pass (bind_loop f outer None)), w1)
      | (Inr (Pass sub1), w1) \<Rightarrow> (Inr (Pass (bind_loop f outer (Some sub1))), w1)
      | (Inr (Emit b sub1), w1) \<Rightarrow> (Inr (Emit b (bind_loop f outer (Some sub1))), w1))"
proof (cases "next_item sub w")
  case (Pair r w1)
  show ?thesis
  proof (cases r)
    case (Inl e)
    with Pair have "\<forall>v. e \<noteq> StopIteration v"
      using next_item_no_StopIteration [of sub w] by auto
    moreover from Pair Inl have "pull (bind_loop f outer (Some sub)) w = (Inl e, w1)" by simp
    ultimately show ?thesis using Pair Inl by (simp add: next_item_Inl)
  next
    case (Inr p)
    with Pair show ?thesis by (cases p) (simp_all add: next_item_Inr)
  qed
qed

lemma next_item_bind_exhausted:
  "next_item (bind_loop f (list_iter []) None) w = (Inr Stop, w)"
  by (simp add: next_item_Inr next_item_list_iter)

lemma drain_bind_exhausted:
  "drain (bind_loop f (list_iter []) None) acc w = Some (Inr acc, w)"
  by (subst drain.simps) (simp add: next_item_bind_exhausted)

lemma drain_bind_inner_le:
  "drain (bind_loop f (list_iter []) (Some sub)) acc w = Some r \<Longrightarrow> drain sub acc w = Some r"
proof -
  have "drain it acc w = Some r \<Longrightarrow>
        (\<forall>sub. it = bind_loop f (list_iter []) (Some sub) \<longrightarrow> drain sub acc w = Some r)
        \<and> (it = bind_loop f (list_iter []) None \<longrightarrow> r = (Inr acc, w))" for it
  proof (induction rule: drain.raw_induct [rotated 1, consumes 1])
    case (1 drain' it acc w r)
    show ?case
    proof (intro conjI allI impI)
      fix sub assume it: "it = bind_loop f (list_iter []) (Some sub)"
      obtain o1 w1 where p: "next_item sub w = (o1, w1)" by (cases "next_item sub w")
      show "drain sub acc w = Some r"
      proof (cases o1)
        case (Inl e)
        with 1(2) it p show ?thesis
          by (subst drain.simps) (simp add: next_item_bind_inner)
      next
        case (Inr step)
        show ?thesis
        proof (cases step)
          case Stop
          with Inr 1(2) it p have "drain' (bind_loop f (list_iter []) None) acc w1 = Some r"
            by (simp add: next_item_bind_inner)
          from 1(1)[OF this] have "r = (Inr acc, w1)" by simp
          with Stop Inr p show ?thesis by (subst drain.simps) simp
        next
          case (Pass sub1)
          with Inr 1(2) it p
          have "drain' (bind_loop f (list_iter []) (Some sub1)) acc w1 = Some r"
            by (simp add: next_item_bind_inner)
          from 1(1)[OF this] have "drain sub1 acc w1 = Some r" by simp
          with Pass Inr p show ?thesis by (subst drain.simps) simp
        next
          case (Emit a sub1)
          with Inr 1(2) it p
          have "drain' (bind_loop f (list_iter []) (Some sub1)) (acc @ [a]) w1 = Some r"
            by (simp add: next_item_bind_inner)
          from 1(1)[OF this] have "drain sub1 (acc @ [a]) w1 = Some r" by simp
          with Emit Inr p show ?thesis by (subst drain.simps) simp
        qed
      qed
    next
      assume "it = bind_loop f (list_iter []) None"
      with 1(2) show "r = (Inr acc, w)" by (simp add: next_item_bind_exhausted)
    qed
  qed
  then show "drain (bind_loop f (list_iter []) (Some sub)) acc w = Some r \<Longrightarrow> drain sub acc w = Some r"
    by blast
qed

lemma drain_bind_inner_ge:
  "drain sub acc w = Some r \<Longrightarrow> drain (bind_loop f (list_iter []) (Some sub)) acc w = Some r"
proof (induction rule: drain.raw_induct [rotated 1, consumes 1])
  case (1 drain' sub acc w r)
  obtain o1 w1 where p: "next_item sub w = (o1, w1)" by (cases "next_item sub w")
  show ?case
  proof (cases o1)
    case (Inl e)
    with 1(2) p show ?thesis by (subst drain.simps) (simp add: next_item_bind_inner)
  next
    case (Inr step)
    show ?thesis
    proof (cases step)
      case Stop
      with Inr 1(2) p show ?thesis
        by (subst drain.simps) (simp add: next_item_bind_inner drain_bind_exhausted)
    next
      case (Pass sub1)
      with Inr 1(2) p have "drain' sub1 acc w1 = Some r" by simp
      from 1(1)[OF this] Pass Inr p show ?thesis
        by (subst drain.simps) (simp add: next_item_bind_inner)
    next
      case (Emit a sub1)
      with Inr 1(2) p have "drain' sub1 (acc @ [a]) w1 = Some r" by simp
      from 1(1)[OF this] Emit Inr p show ?thesis
        by (subst drain.simps) (simp add: next_item_bind_inner)
    qed
  qed
qed

lemma drain_bind_inner:
  "drain (bind_loop f (list_iter []) (Some sub)) acc w = drain sub acc w"
  (is "?wrapped = ?plain")
proof (cases ?plain)
  case None
  show ?thesis
  proof (cases ?wrapped)
    case None
    with \<open>?plain = None\<close> show ?thesis by simp
  next
    case (Some r)
    from drain_bind_inner_le [OF Some] \<open>?plain = None\<close> show ?thesis by simp
  qed
next
  case (Some r)
  then show ?thesis by (simp add: drain_bind_inner_ge)
qed

text \<open>
  What \<open>pure(c).bind(h).to_list()\<close> does, for every \<open>h\<close>: it is \<open>h(c).to_list()\<close>,
  but for a \<open>StopIteration\<close> raised by the call \<open>h(c)\<close> or by the call of the source
  of the stream it returns, which the generator of \<open>bind\<close> turns into a \<open>RuntimeError\<close>.
\<close>

lemma Stream_bind_pure_to_list:
  "Stream_to_list (Stream_bind (Stream_pure c) h) w
   = (case h c w of
        (Inl e, w1) \<Rightarrow> Some (Inl (in_generator e), w1)
      | (Inr s, w1) \<Rightarrow>
          (case source s w1 of
             (Inl e, w2) \<Rightarrow> Some (Inl (in_generator e), w2)
           | (Inr it, w2) \<Rightarrow> drain it [] w2))"
proof -
  let ?loop = "bind_loop h (list_iter [c]) None"
  let ?start = "\<lambda>w. case source (Stream_pure c) w of
                       (Inl e, w1) \<Rightarrow> (Inl e, w1)
                     | (Inr it, w1) \<Rightarrow> (Inr (bind_loop h it None), w1)"
  have "?start w = (Inr ?loop, w)"
    by (simp add: Stream_pure_def)
  then have "next_item (generator ?start) w = next_item ?loop w"
    by (rule next_item_generator)
  then have "drain (generator ?start) [] w = drain ?loop [] w"
    by (rule drain_cong_next)
  then have "Stream_to_list (Stream_bind (Stream_pure c) h) w = drain ?loop [] w"
    by (simp add: Stream_to_list_def Stream_bind_def)
  also have "\<dots> = (case h c w of
        (Inl e, w1) \<Rightarrow> Some (Inl (in_generator e), w1)
      | (Inr s, w1) \<Rightarrow>
          (case source s w1 of
             (Inl e, w2) \<Rightarrow> Some (Inl (in_generator e), w2)
           | (Inr it, w2) \<Rightarrow> drain it [] w2))"
  proof (cases "h c w")
    case (Pair r w1)
    show ?thesis
    proof (cases r)
      case (Inl e)
      with Pair have "pull ?loop w = (Inl (in_generator e), w1)"
        by (simp add: next_item_list_iter)
      then have "next_item ?loop w = (Inl (in_generator e), w1)"
        by (rule next_item_Inl) (simp add: in_generator_no_StopIteration)
      with Pair Inl show ?thesis by (simp add: drain_raises)
    next
      case (Inr s)
      obtain r2 w2 where src: "source s w1 = (r2, w2)" by (cases "source s w1")
      show ?thesis
      proof (cases r2)
        case (Inl e)
        with Pair Inr src have "pull ?loop w = (Inl (in_generator e), w2)"
          by (simp add: next_item_list_iter)
        then have "next_item ?loop w = (Inl (in_generator e), w2)"
          by (rule next_item_Inl) (simp add: in_generator_no_StopIteration)
        with Pair Inr src Inl show ?thesis by (simp add: drain_raises)
      next
        case (Inr it)
        with Pair \<open>r = Inr s\<close> src
        have "pull ?loop w = (Inr (Pass (bind_loop h (list_iter []) (Some it))), w2)"
          by (simp add: next_item_list_iter)
        then have "next_item ?loop w = (Inr (Pass (bind_loop h (list_iter []) (Some it))), w2)"
          by (rule next_item_Inr)
        then have "drain ?loop [] w = drain (bind_loop h (list_iter []) (Some it)) [] w2"
          by (subst drain.simps) simp
        with Pair \<open>r = Inr s\<close> src Inr show ?thesis by (simp add: drain_bind_inner)
      qed
    qed
  qed
  finally show ?thesis .
qed

text \<open>
  Left identity for IO and for Either: \<open>f(a).run()\<close> evaluates \<open>f(a)\<close>, which may
  itself raise or act on the world, and runs the result; \<open>pure(a).bind(f).run()\<close> does
  the same. \<open>Either.pure(a).bind(f)\<close> is the call \<open>f(a)\<close> itself.
\<close>

lemma IO_left_identity:
  "run (IO_bind (IO_pure a) f) w
   = (case f a w of (Inl e, w1) \<Rightarrow> (Inl e, w1) | (Inr io, w1) \<Rightarrow> run io w1)"
  by (simp add: run_def IO_bind_def IO_pure_def)

lemma Either_left_identity: "Either_bind (Either_pure b) g w = g b w"
  by (simp add: Either_bind_def Either_pure_def)

text \<open>
  Left identity for Stream, when neither the call \<open>h(c)\<close> nor the call of the source of
  the stream it returns raises \<open>StopIteration\<close>; the streams may raise anything while
  they are traversed, or be unbounded.
\<close>

lemma Stream_left_identity_without_StopIteration:
  assumes "\<forall>v. fst (h c w) \<noteq> Inl (StopIteration v)"
    and "\<forall>s w1 v. h c w = (Inr s, w1) \<longrightarrow> fst (source s w1) \<noteq> Inl (StopIteration v)"
  shows "Stream_to_list (Stream_bind (Stream_pure c) h) w
         = (case h c w of (Inl e, w1) \<Rightarrow> Some (Inl e, w1) | (Inr s, w1) \<Rightarrow> Stream_to_list s w1)"
proof (cases "h c w")
  case (Pair r w1)
  show ?thesis
  proof (cases r)
    case (Inl e)
    with Pair assms(1) have "in_generator e = e"
      by (cases e) (simp_all add: in_generator_def)
    with Pair Inl show ?thesis by (simp only: Stream_bind_pure_to_list) simp
  next
    case (Inr s)
    obtain r2 w2 where src: "source s w1 = (r2, w2)" by (cases "source s w1")
    show ?thesis
    proof (cases r2)
      case (Inl e)
      with Pair Inr src assms(2) have "in_generator e = e"
        by (cases e) (simp_all add: in_generator_def)
      with Pair Inr src Inl show ?thesis
        by (simp only: Stream_bind_pure_to_list) (simp add: Stream_to_list_def)
    next
      case (Inr it)
      with Pair \<open>r = Inr s\<close> src show ?thesis
        by (simp only: Stream_bind_pure_to_list) (simp add: Stream_to_list_def)
    qed
  qed
qed



lemma not_seen_index:
  "not_seen seen xs
   = map (\<lambda>i. xs ! i) (filter (\<lambda>i. xs ! i \<notin> seen \<union> set (take i xs)) [0..<length xs])"
proof (induction xs arbitrary: seen)
  case Nil
  show ?case by simp
next
  case (Cons x xs)
  have upt: "[0..<length (x # xs)] = 0 # map Suc [0..<length xs]"
    by (simp add: upt_conv_Cons map_Suc_upt del: upt_Suc)
  show ?case
    unfolding upt
    by (auto simp add: Cons.IH filter_map comp_def simp del: upt_Suc
             intro!: arg_cong [where f = "map ((!) xs)"] filter_cong)
qed

lemma not_seen_empty: "not_seen {} xs = first_occurrences xs"
  by (simp add: not_seen_index first_occurrences_def)

lemma set_not_seen: "set (not_seen seen xs) = set xs - seen"
  by (induction xs arbitrary: seen) auto

lemma distinct_not_seen: "distinct (not_seen seen xs)"
  by (induction xs arbitrary: seen) (auto simp: set_not_seen)

text \<open>
  The specified list holds every element of \<open>xs\<close>, each once.
\<close>

lemma first_occurrences_distinct_set:
  "distinct (first_occurrences xs) \<and> set (first_occurrences xs) = set xs"
  using distinct_not_seen [of "{}" xs] set_not_seen [of "{}" xs]
  by (simp add: not_seen_empty)

lemma next_item_distinct_loop:
  "next_item (distinct_loop seen it) w
   = (case next_item it w of
        (Inl e, w1) \<Rightarrow> (Inl e, w1)
      | (Inr Stop, w1) \<Rightarrow> (Inr Stop, w1)
      | (Inr (Pass it1), w1) \<Rightarrow> (Inr (Pass (distinct_loop seen it1)), w1)
      | (Inr (Emit a it1), w1) \<Rightarrow>
          (if a \<notin> seen then (Inr (Emit a (distinct_loop (insert a seen) it1)), w1)
           else (Inr (Pass (distinct_loop seen it1)), w1)))"
proof (cases "next_item it w")
  case (Pair r w1)
  show ?thesis
  proof (cases r)
    case (Inl e)
    with Pair have "\<forall>v. e \<noteq> StopIteration v"
      using next_item_no_StopIteration [of it w] by auto
    moreover from Pair Inl have "pull (distinct_loop seen it) w = (Inl e, w1)" by simp
    ultimately show ?thesis using Pair Inl by (simp add: next_item_Inl)
  next
    case (Inr p)
    with Pair show ?thesis by (cases p) (simp_all add: next_item_Inr)
  qed
qed

lemma drain_distinct_loop:
  "drain it acc w = Some (Inr ys, w') \<Longrightarrow>
   \<exists>xs. ys = acc @ xs
      \<and> (\<forall>seen acc'. drain (distinct_loop seen it) acc' w = Some (Inr (acc' @ not_seen seen xs), w'))"
proof -
  have "drain it acc w = Some r \<Longrightarrow>
        (\<forall>ys w'. r = (Inr ys, w') \<longrightarrow>
           (\<exists>xs. ys = acc @ xs
              \<and> (\<forall>seen acc'. drain (distinct_loop seen it) acc' w
                               = Some (Inr (acc' @ not_seen seen xs), w'))))" for r
  proof (induction rule: drain.raw_induct [rotated 1, consumes 1])
    case (1 drain' it acc w r)
    obtain o1 w1 where p: "next_item it w = (o1, w1)" by (cases "next_item it w")
    show ?case
    proof (intro allI impI)
      fix ys w' assume r: "r = (Inr ys, w')"
      show "\<exists>xs. ys = acc @ xs
              \<and> (\<forall>seen acc'. drain (distinct_loop seen it) acc' w
                               = Some (Inr (acc' @ not_seen seen xs), w'))"
      proof (cases o1)
        case (Inl e)
        with 1(2) p r show ?thesis by simp
      next
        case (Inr step)
        show ?thesis
        proof (cases step)
          case Stop
          with Inr 1(2) p r have "ys = acc" "w' = w1" by simp_all
          moreover have "drain (distinct_loop seen it) acc' w = Some (Inr acc', w1)" for seen acc'
            using Stop Inr p by (subst drain.simps) (simp add: next_item_distinct_loop)
          ultimately show ?thesis by simp
        next
          case (Pass it1)
          with Inr 1(2) p have "drain' it1 acc w1 = Some r" by simp
          from 1(1)[OF this] r obtain xs where xs: "ys = acc @ xs"
            and d: "\<And>seen acc'. drain (distinct_loop seen it1) acc' w1
                                 = Some (Inr (acc' @ not_seen seen xs), w')"
            by blast
          have "drain (distinct_loop seen it) acc' w = Some (Inr (acc' @ not_seen seen xs), w')"
            for seen acc'
            using Pass Inr p d by (subst drain.simps) (simp add: next_item_distinct_loop)
          with xs show ?thesis by blast
        next
          case (Emit a it1)
          with Inr 1(2) p have "drain' it1 (acc @ [a]) w1 = Some r" by simp
          from 1(1)[OF this] r obtain xs where xs: "ys = (acc @ [a]) @ xs"
            and d: "\<And>seen acc'. drain (distinct_loop seen it1) acc' w1
                                 = Some (Inr (acc' @ not_seen seen xs), w')"
            by blast
          have "drain (distinct_loop seen it) acc' w
                = Some (Inr (acc' @ not_seen seen (a # xs)), w')" for seen acc'
            using Emit Inr p d by (subst drain.simps) (simp add: next_item_distinct_loop)
          moreover from xs have "ys = acc @ (a # xs)" by simp
          ultimately show ?thesis by blast
        qed
      qed
    qed
  qed
  then show "drain it acc w = Some (Inr ys, w') \<Longrightarrow>
   \<exists>xs. ys = acc @ xs
      \<and> (\<forall>seen acc'. drain (distinct_loop seen it) acc' w = Some (Inr (acc' @ not_seen seen xs), w'))"
    by blast
qed

text \<open>
  C6. For every stream whose traversal ends, with the elements \<open>xs\<close>,
  \<open>distinct().to_list()\<close> is the list of the first occurrences of the elements of \<open>xs\<close>,
  in the order of \<open>xs\<close>: duplicates are dropped wherever they stand, not only next to each
  other. The world after the traversal is the same as without \<open>distinct\<close>.
\<close>

theorem Stream_distinct_first_occurrences:
  assumes "Stream_to_list self w = Some (Inr xs, w')"
  shows "Stream_to_list (Stream_distinct self) w = Some (Inr (first_occurrences xs), w')"
proof -
  obtain o1 w1 where s: "source self w = (o1, w1)" by (cases "source self w")
  show ?thesis
  proof (cases o1)
    case (Inl e)
    with assms s show ?thesis by (simp add: Stream_to_list_def)
  next
    case (Inr it)
    with assms s have "drain it [] w1 = Some (Inr xs, w')" by (simp add: Stream_to_list_def)
    from drain_distinct_loop [OF this]
    have d: "drain (distinct_loop {} it) [] w1 = Some (Inr (not_seen {} xs), w')" by simp
    let ?start = "\<lambda>w. case source self w of
                         (Inl e, w1) \<Rightarrow> (Inl e, w1)
                       | (Inr it, w1) \<Rightarrow> (Inr (distinct_loop {} it), w1)"
    have "?start w = (Inr (distinct_loop {} it), w1)"
      using s Inr by simp
    then have "next_item (generator ?start) w = next_item (distinct_loop {} it) w1"
      by (rule next_item_generator)
    then have "drain (generator ?start) [] w = drain (distinct_loop {} it) [] w1"
      by (rule drain_cong_next)
    then have "Stream_to_list (Stream_distinct self) w = drain (distinct_loop {} it) [] w1"
      by (simp add: Stream_to_list_def Stream_distinct_def)
    with d show ?thesis by (simp add: not_seen_empty)
  qed
qed

text \<open>\<open>Stream.of(1,2,2,3,3,3).distinct().to_list() == [1,2,3]\<close>.\<close>

theorem Stream_distinct_first_occurrences_witness:
  "Stream_to_list (Stream_distinct (Stream_of [1, 2, 2, 3, 3, 3 :: int])) ()
   = (Some (Inr [1, 2, 3], ()) :: ((unit exn + int list) \<times> unit) option)"
proof -
  have "Stream_to_list (Stream_of [1, 2, 2, 3, 3, 3 :: int]) ()
        = (Some (Inr [1, 2, 2, 3, 3, 3], ()) :: ((unit exn + int list) \<times> unit) option)"
    by (rule Stream_to_list_of)
  from Stream_distinct_first_occurrences [OF this]
  show ?thesis by (simp add: first_occurrences_def upt_conv_Cons del: upt_Suc)
qed

lemma find_loop_rejects:
  "rejects predicate it w xs it1 w1 \<Longrightarrow> find_loop predicate it w = find_loop predicate it1 w1"
proof (induction rule: rejects.induct)
  case (rejects_Nil it w)
  show ?case by simp
next
  case (rejects_Pass it w it1 w1 xs it2 w2)
  have "find_loop predicate it w = find_loop predicate it1 w1"
    using rejects_Pass.hyps(1) by (subst find_loop.simps) simp
  with rejects_Pass.IH show ?case by simp
next
  case (rejects_Emit it w a it1 w1 w1' xs it2 w2)
  have "find_loop predicate it w = find_loop predicate it1 w1'"
    using rejects_Emit.hyps(1,2) by (subst find_loop.simps) simp
  with rejects_Emit.IH show ?case by simp
qed

lemma find_loop_never_matches:
  assumes "never_matches predicate it w"
  shows "find_loop predicate it w = None" (is "?run = None")
proof -
  have never: "find_loop q it' w' = Some r \<Longrightarrow> q = predicate \<longrightarrow> \<not> never_matches predicate it' w'"
    for q it' w' r
  proof (induction rule: find_loop.raw_induct [rotated 1, consumes 1])
    case (1 find_loop' q it' w' r)
    show ?case
    proof (intro impI notI)
      assume q: "q = predicate" and nm: "never_matches predicate it' w'"
      from nm show False
      proof (cases rule: never_matches.cases)
        case (never_Pass it1 w1)
        with 1(2) have "find_loop' q it1 w1 = Some r" by simp
        from 1(1)[OF this] q never_Pass(2) show False by simp
      next
        case (never_Emit a it1 w1 w2)
        with 1(2) q have "find_loop' q it1 w2 = Some r" by simp
        from 1(1)[OF this] q never_Emit(3) show False by simp
      qed
    qed
  qed
  show ?thesis
  proof (cases ?run)
    case None
    then show ?thesis .
  next
    case (Some r)
    from never [OF Some] assms show ?thesis by simp
  qed
qed

text \<open>
  C7, as amended. Let the traversal of the stream hand out \<open>xs\<close>, with the predicate
  returning \<open>False\<close> on each of them. If the next element \<open>x\<close> is one on which the
  predicate returns \<open>True\<close>, then \<open>find\<close> returns \<open>Right x\<close>: the first match in
  traversal order. If the stream ends there, \<open>find\<close> returns
  \<open>Left "No element found"\<close>; with \<open>xs = []\<close> this is the empty stream. If the
  traversal never ends and the predicate returns \<open>False\<close> on every element, \<open>find\<close>
  does not return.
\<close>

theorem Stream_find_first_match:
  assumes "source self w = (Inr it, w0)"
  shows "(rejects predicate it w0 xs it1 w1
            \<and> next_item it1 w1 = (Inr (Emit x it2), w2) \<and> predicate x w2 = (Inr True, w3)
          \<longrightarrow> Stream_find self predicate w = Some (Inr (Right x), w3))
       \<and> (rejects predicate it w0 xs it1 w1 \<and> next_item it1 w1 = (Inr Stop, w2)
          \<longrightarrow> Stream_find self predicate w = Some (Inr (Left ''No element found''), w2))
       \<and> (never_matches predicate it w0 \<longrightarrow> Stream_find self predicate w = None)"
proof (intro conjI impI)
  assume a: "rejects predicate it w0 xs it1 w1
             \<and> next_item it1 w1 = (Inr (Emit x it2), w2) \<and> predicate x w2 = (Inr True, w3)"
  then have "find_loop predicate it w0 = find_loop predicate it1 w1"
    by (simp add: find_loop_rejects [of predicate it w0 xs it1 w1])
  then have "Stream_find self predicate w = find_loop predicate it1 w1"
    using assms by (simp add: Stream_find_def)
  also have "\<dots> = Some (Inr (Right x), w3)"
    using a by (subst find_loop.simps) simp
  finally show "Stream_find self predicate w = Some (Inr (Right x), w3)" .
next
  assume a: "rejects predicate it w0 xs it1 w1 \<and> next_item it1 w1 = (Inr Stop, w2)"
  then have "find_loop predicate it w0 = find_loop predicate it1 w1"
    by (simp add: find_loop_rejects [of predicate it w0 xs it1 w1])
  then have "Stream_find self predicate w = find_loop predicate it1 w1"
    using assms by (simp add: Stream_find_def)
  also have "\<dots> = Some (Inr (Left ''No element found''), w2)"
    using a by (subst find_loop.simps) simp
  finally show "Stream_find self predicate w = Some (Inr (Left ''No element found''), w2)" .
next
  assume "never_matches predicate it w0"
  then show "Stream_find self predicate w = None"
    using assms by (simp add: Stream_find_def find_loop_never_matches)
qed


lemma rejects_list_iter:
  "\<forall>y\<in>set xs. \<not> p y
   \<Longrightarrow> rejects (pure_fn p) (list_iter (xs @ ys)) w xs (list_iter ys :: ('w, 'x exn, 'a) iterator) w"
proof (induction xs)
  case Nil
  show ?case by (simp add: rejects_Nil)
next
  case (Cons x xs)
  then have tl: "rejects (pure_fn p) (list_iter (xs @ ys)) w xs
                   (list_iter ys :: ('w, 'x exn, 'a) iterator) w"
    by simp
  have hd: "next_item (list_iter ((x # xs) @ ys) :: ('w, 'x exn, 'a) iterator) w
            = (Inr (Emit x (list_iter (xs @ ys))), w)"
    by (simp add: next_item_list_iter)
  have no: "pure_fn p x w = (Inr False :: 'x exn + bool, w)"
    using Cons.prems by (simp add: pure_fn_apply)
  from hd no tl show ?case by (rule rejects_Emit)
qed

lemma never_matches_count_iter:
  "\<forall>x\<ge>k. \<not> p x
   \<Longrightarrow> never_matches (pure_fn p) (count_iter k 1 :: ('w, 'x exn, int) iterator) w"
proof (coinduction arbitrary: k)
  case never_matches
  have "next_item (count_iter k 1 :: ('w, 'x exn, int) iterator) w
        = (Inr (Emit k (count_iter (k + 1) 1)), w)"
    by (rule next_item_count_iter)
  moreover have "pure_fn p k w = (Inr False :: 'x exn + bool, w)"
    using never_matches by (simp add: pure_fn_apply)
  moreover have "\<forall>x\<ge>k + 1. \<not> p x"
    using never_matches by simp
  ultimately show ?case by blast
qed

text \<open>
  The two cases on \<open>Stream.of(1, 2, 3, 4, 5)\<close>, as in the tests, and \<open>Stream.range(0)\<close>
  searched for a negative number.
\<close>

theorem Stream_find_first_match_witness:
  "Stream_find (Stream_of [1, 2, 3, 4, 5 :: int]) (pure_fn (\<lambda>x. 3 < x)) ()
     = (Some (Inr (Right 4), ()) :: ((unit exn + (string, int) Either) \<times> unit) option)
   \<and> Stream_find (Stream_of [1, 2, 3, 4, 5 :: int]) (pure_fn (\<lambda>x. 10 < x)) ()
     = (Some (Inr (Left ''No element found''), ()) :: ((unit exn + (string, int) Either) \<times> unit) option)
   \<and> Stream_find (Stream_range 0 None 1) (pure_fn (\<lambda>x. x < 0)) ()
     = (None :: ((unit exn + (string, int) Either) \<times> unit) option)"
proof (intro conjI)
  have src: "source (Stream_of [1, 2, 3, 4, 5 :: int]) ()
             = (Inr (list_iter [1, 2, 3, 4, 5]) :: unit exn + (unit, unit exn, int) iterator, ())"
    by (simp add: Stream_of_def)
  have "rejects (pure_fn (\<lambda>x::int. 3 < x))
          (list_iter ([1, 2, 3] @ [4, 5]) :: (unit, unit exn, int) iterator) () [1, 2, 3]
          (list_iter [4, 5]) ()"
    by (rule rejects_list_iter) simp
  then have r1: "rejects (pure_fn (\<lambda>x::int. 3 < x))
          (list_iter [1, 2, 3, 4, 5] :: (unit, unit exn, int) iterator) () [1, 2, 3]
          (list_iter [4, 5]) ()"
    by simp
  from Stream_find_first_match
         [OF src, where predicate = "pure_fn (\<lambda>x::int. 3 < x)" and xs = "[1, 2, 3]"
            and ?it1.0 = "list_iter [4, 5]" and ?w1.0 = "()" and x = 4
            and ?it2.0 = "list_iter [5]" and ?w2.0 = "()" and ?w3.0 = "()", THEN conjunct1]
       r1
  show "Stream_find (Stream_of [1, 2, 3, 4, 5 :: int]) (pure_fn (\<lambda>x. 3 < x)) ()
     = (Some (Inr (Right 4), ()) :: ((unit exn + (string, int) Either) \<times> unit) option)"
    by (simp add: pure_fn_apply next_item_list_iter)
  have "rejects (pure_fn (\<lambda>x::int. 10 < x))
          (list_iter ([1, 2, 3, 4, 5] @ []) :: (unit, unit exn, int) iterator) () [1, 2, 3, 4, 5]
          (list_iter []) ()"
    by (rule rejects_list_iter) simp
  then have r2: "rejects (pure_fn (\<lambda>x::int. 10 < x))
          (list_iter [1, 2, 3, 4, 5] :: (unit, unit exn, int) iterator) () [1, 2, 3, 4, 5]
          (list_iter []) ()"
    by simp
  from Stream_find_first_match
         [OF src, where predicate = "pure_fn (\<lambda>x::int. 10 < x)" and xs = "[1, 2, 3, 4, 5]"
            and ?it1.0 = "list_iter []" and ?w1.0 = "()" and ?w2.0 = "()",
          THEN conjunct2, THEN conjunct1]
       r2
  show "Stream_find (Stream_of [1, 2, 3, 4, 5 :: int]) (pure_fn (\<lambda>x. 10 < x)) ()
     = (Some (Inr (Left ''No element found''), ()) :: ((unit exn + (string, int) Either) \<times> unit) option)"
    by (simp add: next_item_list_iter)
  have src0: "source (Stream_range 0 None 1) ()
              = (Inr (count_iter 0 1) :: unit exn + (unit, unit exn, int) iterator, ())"
    by (simp add: Stream_range_def)
  have never: "never_matches (pure_fn (\<lambda>x::int. x < 0))
                 (count_iter 0 1 :: (unit, unit exn, int) iterator) ()"
    by (rule never_matches_count_iter) simp
  from Stream_find_first_match
         [OF src0, where predicate = "pure_fn (\<lambda>x::int. x < 0)",
          THEN conjunct2, THEN conjunct2]
       never
  show "Stream_find (Stream_range 0 None 1) (pure_fn (\<lambda>x. x < 0)) ()
     = (None :: ((unit exn + (string, int) Either) \<times> unit) option)"
    by simp
qed

text \<open>
  C7 as stated fails twice. The message of the failure is \<open>"No element found"\<close>, not
  \<open>"no element found"\<close>; and on the unbounded \<open>Stream.range(0)\<close> with a predicate that
  no element satisfies, \<open>find\<close> never returns.
\<close>

theorem Stream_find_message_and_divergence_counterexample:
  "Stream_find (Stream_of ([] :: int list)) (pure_fn (\<lambda>x. True)) ()
     \<noteq> (Some (Inr (Left ''no element found''), ()) :: ((unit exn + (string, int) Either) \<times> unit) option)
   \<and> Stream_find (Stream_range 0 None 1) (pure_fn (\<lambda>x. False)) ()
     = (None :: ((unit exn + (string, int) Either) \<times> unit) option)"
proof
  have "Stream_find (Stream_of ([] :: int list)) (pure_fn (\<lambda>x. True)) ()
        = (Some (Inr (Left ''No element found''), ()) :: ((unit exn + (string, int) Either) \<times> unit) option)"
    unfolding Stream_find_def Stream_of_def
    by (subst find_loop.simps) (simp add: next_item_list_iter)
  then show "Stream_find (Stream_of ([] :: int list)) (pure_fn (\<lambda>x. True)) ()
     \<noteq> (Some (Inr (Left ''no element found''), ()) :: ((unit exn + (string, int) Either) \<times> unit) option)"
    by simp
  show "Stream_find (Stream_range 0 None 1) (pure_fn (\<lambda>x. False)) ()
     = (None :: ((unit exn + (string, int) Either) \<times> unit) option)"
    by (simp add: Stream_find_def Stream_range_def find_loop_never_matches never_matches_count_iter)
qed

lemma drain_map_single:
  assumes "f r w = (Inr y, w')"
  shows "drain (map_iter f (list_iter [r])) [] w = Some (Inr [y], w')"
proof -
  from assms
  have "pull (map_iter f (list_iter [r])) w = (Inr (Emit y (map_iter f (list_iter []))), w')"
    by (simp add: next_item_list_iter)
  then have "next_item (map_iter f (list_iter [r])) w
             = (Inr (Emit y (map_iter f (list_iter []))), w')"
    by (rule next_item_Inr)
  then have "drain (map_iter f (list_iter [r])) [] w = drain (map_iter f (list_iter [])) [y] w'"
    by (subst drain.simps) simp
  also have "\<dots> = Some (Inr [y], w')"
    by (subst drain.simps) (simp add: next_item_Inr next_item_list_iter)
  finally show ?thesis .
qed

text \<open>
  C8. The claim says that \<open>with_headers\<close> leaves the requests of the original stream as
  they were. The call itself touches nothing, but traversing the stream it returns assigns
  to the \<open>headers\<close> field of the very request objects the original stream holds. With one
  request at reference 0 whose \<open>headers\<close> is \<open>None\<close>: after the traversal the heap holds,
  at reference 0, a request with the added header, and the original stream still hands out
  reference 0.
\<close>

theorem with_headers_overwrites_original_request:
  "Stream_to_list
     (requests (with_headers (HttpStream (Stream_of [0])) [''Accept'' \<mapsto> ''application/json'']))
     (\<lambda>r. \<lparr>url = ''u'', http_method = GET, headers = None, params = None, body = None, timeout = 30\<rparr>)
   = Some (Inr [0],
       (\<lambda>r. \<lparr>url = ''u'', http_method = GET, headers = None, params = None, body = None, timeout = 30\<rparr>)
         (0 := \<lparr>url = ''u'', http_method = GET,
                 headers = Some [''Accept'' \<mapsto> ''application/json''],
                 params = None, body = None, timeout = 30\<rparr>))
   \<and> Stream_to_list (requests (HttpStream (Stream_of [0])))
       ((\<lambda>r. \<lparr>url = ''u'', http_method = GET, headers = None, params = None, body = None, timeout = 30\<rparr>)
         (0 := \<lparr>url = ''u'', http_method = GET,
                 headers = Some [''Accept'' \<mapsto> ''application/json''],
                 params = None, body = None, timeout = 30\<rparr>))
     = Some (Inr [0],
       (\<lambda>r. \<lparr>url = ''u'', http_method = GET, headers = None, params = None, body = None, timeout = 30\<rparr>)
         (0 := \<lparr>url = ''u'', http_method = GET,
                 headers = Some [''Accept'' \<mapsto> ''application/json''],
                 params = None, body = None, timeout = 30\<rparr>))"
proof -
  let ?req = "\<lparr>url = ''u'', http_method = GET, headers = None, params = None, body = None,
               timeout = 30\<rparr>"
  have "drain (map_iter (add_headers [''Accept'' \<mapsto> ''application/json'']) (list_iter [0])) []
          (\<lambda>r. ?req)
        = Some (Inr [0],
            (\<lambda>r. ?req)(0 := ?req\<lparr>headers := Some [''Accept'' \<mapsto> ''application/json'']\<rparr>))"
    by (rule drain_map_single) (simp add: add_headers_def)
  then show ?thesis
    by (simp add: with_headers_def map_request_def Stream_to_list_def Stream_map_def Stream_of_def
        drain_list_iter)
qed

end
